theory Spec2Isabelle
  imports Complex_Main "HOL-Library.Sublist"
begin

section \<open>Data model\<close>

text \<open>
  The program is \<^verbatim>\<open>src/dialup_modem_codec.py\<close>, class \<^verbatim>\<open>DialupModem\<close>.
  Python integers are unbounded, so bits, byte values and code points are \<open>int\<close>;
  lengths, indices and the two rates are \<open>nat\<close>. A Python \<^verbatim>\<open>str\<close> is a sequence of
  code points in \<open>0 .. 0x10FFFF\<close>, lone surrogates included; a \<^verbatim>\<open>bytes\<close> object is a
  sequence of integers in \<open>0 .. 255\<close>. Diagnostics printed by the program have no
  influence on its results and are left out.
\<close>

type_synonym py_str = "int list"
type_synonym py_bytes = "int list"

datatype py_error = UnicodeEncodeError | OverflowError | ValueError | ZeroDivisionError

text \<open>A bit sequence in the sense of the specification: every element is 0 or 1.\<close>

definition is_bits :: "int list \<Rightarrow> bool" where
  "is_bits bits = list_all (\<lambda>b. b = 0 \<or> b = 1) bits"

section \<open>Library functions of Python the codec calls\<close>

text \<open>
  \<^verbatim>\<open>str.encode('utf-8')\<close>: one to four bytes per code point; a surrogate
  (\<open>0xD800 .. 0xDFFF\<close>) raises \<^verbatim>\<open>UnicodeEncodeError\<close>. Code points outside the
  Unicode range cannot occur in a \<^verbatim>\<open>str\<close>; the model rejects them so that it is total.
\<close>

definition utf8_char :: "int \<Rightarrow> py_bytes option" where
  "utf8_char c =
     (if c < 0 then None
      else if c < 0x80 then Some [c]
      else if c < 0x800 then Some [0xC0 + c div 64, 0x80 + c mod 64]
      else if c < 0x10000 then
        (if 0xD800 \<le> c \<and> c \<le> 0xDFFF then None
         else Some [0xE0 + c div 4096, 0x80 + c div 64 mod 64, 0x80 + c mod 64])
      else if c < 0x110000 then
        Some [0xF0 + c div 262144, 0x80 + c div 4096 mod 64,
              0x80 + c div 64 mod 64, 0x80 + c mod 64]
      else None)"

fun str_encode_utf8 :: "py_str \<Rightarrow> py_error + py_bytes" where
  "str_encode_utf8 [] = Inr []"
| "str_encode_utf8 (c # cs) =
     (case utf8_char c of
        None \<Rightarrow> Inl UnicodeEncodeError
      | Some e \<Rightarrow>
          (case str_encode_utf8 cs of
             Inl err \<Rightarrow> Inl err
           | Inr rest \<Rightarrow> Inr (e @ rest)))"

text \<open>
  \<^verbatim>\<open>bytes.decode('utf-8', errors='ignore')\<close>. \<open>utf8_seq b0 rest\<close> recognises a
  well-formed multi-byte sequence that starts with the lead byte \<open>b0\<close> and continues in
  \<open>rest\<close>; it yields the code point and the number of continuation bytes. The ranges of
  the second byte are those of the Unicode standard (no overlong forms, no surrogates,
  nothing above \<open>0x10FFFF\<close>). With \<^verbatim>\<open>errors='ignore'\<close> the decoder drops the bytes of
  an ill-formed sequence and goes on; dropping them one at a time gives the same text,
  because a continuation byte is never the start of a sequence.
\<close>

definition is_cont :: "int \<Rightarrow> bool" where
  "is_cont b = (0x80 \<le> b \<and> b \<le> 0xBF)"

definition utf8_seq :: "int \<Rightarrow> py_bytes \<Rightarrow> (int \<times> nat) option" where
  "utf8_seq b0 rest =
     (if 0xC2 \<le> b0 \<and> b0 \<le> 0xDF then
        (case rest of
           b1 # _ \<Rightarrow> if is_cont b1 then Some ((b0 - 0xC0) * 64 + (b1 - 0x80), 1) else None
         | _ \<Rightarrow> None)
      else if 0xE0 \<le> b0 \<and> b0 \<le> 0xEF then
        (case rest of
           b1 # b2 # _ \<Rightarrow>
             if (if b0 = 0xE0 then 0xA0 \<le> b1 \<and> b1 \<le> 0xBF
                 else if b0 = 0xED then 0x80 \<le> b1 \<and> b1 \<le> 0x9F
                 else is_cont b1) \<and> is_cont b2
             then Some ((b0 - 0xE0) * 4096 + (b1 - 0x80) * 64 + (b2 - 0x80), 2)
             else None
         | _ \<Rightarrow> None)
      else if 0xF0 \<le> b0 \<and> b0 \<le> 0xF4 then
        (case rest of
           b1 # b2 # b3 # _ \<Rightarrow>
             if (if b0 = 0xF0 then 0x90 \<le> b1 \<and> b1 \<le> 0xBF
                 else if b0 = 0xF4 then 0x80 \<le> b1 \<and> b1 \<le> 0x8F
                 else is_cont b1) \<and> is_cont b2 \<and> is_cont b3
             then Some ((b0 - 0xF0) * 262144 + (b1 - 0x80) * 4096
                        + (b2 - 0x80) * 64 + (b3 - 0x80), 3)
             else None
         | _ \<Rightarrow> None)
      else None)"

function bytes_decode_utf8_ignore :: "py_bytes \<Rightarrow> py_str" where
  "bytes_decode_utf8_ignore [] = []"
| "bytes_decode_utf8_ignore (b0 # rest) =
     (if 0 \<le> b0 \<and> b0 < 0x80 then b0 # bytes_decode_utf8_ignore rest
      else
        (case utf8_seq b0 rest of
           Some (c, k) \<Rightarrow> c # bytes_decode_utf8_ignore (drop k rest)
         | None \<Rightarrow> bytes_decode_utf8_ignore rest))"
  by pat_completeness auto
termination
  by (relation "measure length") auto

text \<open>
  \<^verbatim>\<open>n.to_bytes(2, 'little')\<close>: the two bytes of \<open>n\<close>, low byte first;
  \<^verbatim>\<open>OverflowError\<close> when \<open>n\<close> does not fit in 16 unsigned bits.
\<close>

definition to_bytes_2_little :: "int \<Rightarrow> py_error + py_bytes" where
  "to_bytes_2_little n =
     (if 0 \<le> n \<and> n < 65536 then Inr [n mod 256, n div 256] else Inl OverflowError)"

text \<open>\<^verbatim>\<open>bytes(xs)\<close>: \<^verbatim>\<open>ValueError\<close> unless every element is in \<open>range(0, 256)\<close>.\<close>

definition py_bytes_of :: "int list \<Rightarrow> py_error + py_bytes" where
  "py_bytes_of xs =
     (if list_all (\<lambda>b. 0 \<le> b \<and> b < 256) xs then Inr xs else Inl ValueError)"

text \<open>
  The slice \<^verbatim>\<open>xs[a:b]\<close> with integer bounds: a negative bound counts from the end,
  and both are clamped to the list.
\<close>

definition slice_bound :: "nat \<Rightarrow> int \<Rightarrow> nat" where
  "slice_bound n i = (if i < 0 then nat (max 0 (int n + i)) else min n (nat i))"

definition py_slice :: "'a list \<Rightarrow> int \<Rightarrow> int \<Rightarrow> 'a list" where
  "py_slice xs a b =
     (let lo = slice_bound (length xs) a; hi = slice_bound (length xs) b
      in take (hi - lo) (drop lo xs))"

section \<open>Frame codec\<close>

definition start_marker :: "py_bytes" where
  "start_marker = [0xAA, 0x55, 0xAA, 0x55]"

text \<open>
  The inner loop of \<^verbatim>\<open>text_to_bits\<close>:
  \<^verbatim>\<open>for i in range(7, -1, -1): bits.append((byte_val >> i) & 1)\<close>.
\<close>

definition byte_bits :: "int \<Rightarrow> int list" where
  "byte_bits byte_val = map (\<lambda>i. and (drop_bit i byte_val) 1) [7, 6, 5, 4, 3, 2, 1, 0]"

text \<open>
  \<^verbatim>\<open>text_to_bits\<close>. The \<^verbatim>\<open>try\<close> catches \<^verbatim>\<open>UnicodeEncodeError\<close> only and returns
  the empty list; \<^verbatim>\<open>to_bytes\<close> is outside it, so its \<^verbatim>\<open>OverflowError\<close> propagates.
\<close>

definition text_to_bits :: "py_str \<Rightarrow> py_error + int list" where
  "text_to_bits text =
     (case str_encode_utf8 text of
        Inl UnicodeEncodeError \<Rightarrow> Inr []
      | Inl err \<Rightarrow> Inl err
      | Inr text_bytes \<Rightarrow>
          (case to_bytes_2_little (int (length text_bytes)) of
             Inl err \<Rightarrow> Inl err
           | Inr length_bytes \<Rightarrow>
               Inr (concat (map byte_bits (start_marker @ length_bytes @ text_bytes)))))"

text \<open>
  The packing loop of \<^verbatim>\<open>bits_to_text\<close>:
  \<^verbatim>\<open>for i in range(0, len(bits) - 7, 8)\<close> visits every \<open>i\<close> with \<open>i + 8 \<le> len(bits)\<close>,
  and the byte is built by \<^verbatim>\<open>byte_val = (byte_val << 1) | bits[i + j]\<close> for
  \<open>j = 0 .. 7\<close>. The recursion consumes the list eight bits at a time; trailing bits
  that do not fill a byte are dropped.
\<close>

definition pack_byte :: "int list \<Rightarrow> int" where
  "pack_byte bs = foldl (\<lambda>byte_val b. or (push_bit 1 byte_val) b) 0 bs"

function pack_bytes :: "int list \<Rightarrow> int list" where
  "pack_bytes bits =
     (if length bits < 8 then []
      else pack_byte (take 8 bits) # pack_bytes (drop 8 bits))"
  by pat_completeness auto
termination
  by (relation "measure length") auto

text \<open>
  The marker search of \<^verbatim>\<open>bits_to_text\<close>:
  \<^verbatim>\<open>for i in range(len(bytes_data) - 3): if bytes_data[i:i+4] == start_marker: start_pos = i + 4; break\<close>.
  \<open>None\<close> stands for the sentinel \<open>start_pos == -1\<close>; \<open>Some p\<close> is the index just
  after the first marker.
\<close>

fun find_marker :: "int list \<Rightarrow> nat option" where
  "find_marker [] = None"
| "find_marker (b # bs) =
     (if take 4 (b # bs) = start_marker then Some 4
      else map_option Suc (find_marker bs))"

definition bits_to_text :: "int list \<Rightarrow> py_error + py_str" where
  "bits_to_text bits =
     (if length bits < 48 then Inr []
      else
        let bytes_data = pack_bytes bits in
        (case find_marker bytes_data of
           None \<Rightarrow> Inr []
         | Some start_pos \<Rightarrow>
             if start_pos + 2 \<ge> length bytes_data then Inr []
             else
               let data_length = bytes_data ! start_pos
                                 + push_bit 8 (bytes_data ! (start_pos + 1));
                   data_start = start_pos + 2;
                   data_length =
                     (if int data_start + data_length > int (length bytes_data)
                      then int (length bytes_data) - int data_start
                      else data_length)
               in
               (case py_bytes_of
                       (py_slice bytes_data (int data_start) (int data_start + data_length)) of
                  Inl err \<Rightarrow> Inl err
                | Inr text_bytes \<Rightarrow> Inr (bytes_decode_utf8_ignore text_bytes))))"

section \<open>Modem configuration\<close>

text \<open>
  The fields \<^verbatim>\<open>__init__\<close> sets. \<^verbatim>\<open>bit_duration\<close> is recomputed as
  \<^verbatim>\<open>sample_rate / baud_rate\<close> by every assignment to one of the rates, so it is a function
  of the record here. Both rates are non-negative by their type.
\<close>

record modem =
  sample_rate :: nat
  baud_rate :: nat
  freq_0 :: int
  freq_1 :: int

definition default_modem :: modem where
  "default_modem = \<lparr>sample_rate = 8000, baud_rate = 300, freq_0 = 1070, freq_1 = 1270\<rparr>"

text \<open>
  Python's \<^verbatim>\<open>/\<close> on two integers is the quotient as a float, and \<^verbatim>\<open>int(x)\<close> truncates
  towards zero. The quotient is taken exactly here, which is what the program computes
  only in a bounded range: for positive integers \<open>a\<close> and \<open>b\<close> with \<open>a + b < 2 ^ 53\<close> the
  truncated double quotient is the truncated exact quotient (a non-integral \<open>a / b\<close> lies
  at least \<open>1 / b\<close> below the next integer, which is more than half the spacing of doubles
  there). Beyond that range the double quotient may differ, for instance at
  \<open>a = 2 ^ 53 + 1\<close> and \<open>b = 1\<close>. \<open>float_exact\<close> names the range; the statement about the
  value of the quotient carries it as a hypothesis.
\<close>

definition float_exact :: "nat \<Rightarrow> nat \<Rightarrow> bool" where
  "float_exact a b = (a + b < 2 ^ 53)"

definition py_int :: "real \<Rightarrow> int" where
  "py_int x = (if 0 \<le> x then \<lfloor>x\<rfloor> else \<lceil>x\<rceil>)"

definition bit_duration :: "modem \<Rightarrow> real" where
  "bit_duration m = real (sample_rate m) / real (baud_rate m)"

text \<open>\<^verbatim>\<open>int(self.bit_duration)\<close>, the number of points of the \<^verbatim>\<open>linspace\<close> of one bit.\<close>

definition bit_samples :: "modem \<Rightarrow> nat" where
  "bit_samples m = nat (py_int (bit_duration m))"

text \<open>
  \<^verbatim>\<open>int(0.1 * self.sample_rate)\<close>, with the product taken exactly as a tenth of the
  rate. No statement below depends on the length of the silence.
\<close>

definition silence_duration :: "modem \<Rightarrow> nat" where
  "silence_duration m = nat (py_int (real (sample_rate m) / 10))"

text \<open>
  \<^verbatim>\<open>decode_from_audio\<close>: \<^verbatim>\<open>actual_bit_duration = sample_rate / self.baud_rate\<close> and
  \<^verbatim>\<open>samples_per_bit = int(actual_bit_duration)\<close>, from the rate of the file.
\<close>

definition samples_per_bit :: "nat \<Rightarrow> nat \<Rightarrow> nat" where
  "samples_per_bit file_rate baud = nat (py_int (real file_rate / real baud))"

text \<open>
  The derived value as the specification words it:
  \<open>samples_per_bit = round(sample_rate / baud_rate)\<close>.
\<close>

definition spec_samples_per_bit :: "nat \<Rightarrow> nat \<Rightarrow> nat" where
  "spec_samples_per_bit rate baud = nat (round (real rate / real baud))"

section \<open>Standard output\<close>

text \<open>
  \<^verbatim>\<open>encode_to_audio\<close> prints its argument first, outside any \<^verbatim>\<open>try\<close> (line 130).
  Standard output is UTF-8; its error handler is \<^verbatim>\<open>strict\<close> by default and
  \<^verbatim>\<open>surrogateescape\<close> under the C or POSIX locale. \<^verbatim>\<open>print\<close> of a text raises
  \<^verbatim>\<open>UnicodeEncodeError\<close> unless the handler accepts every code point: one that has a
  UTF-8 encoding, or, under \<^verbatim>\<open>surrogateescape\<close>, one of \<open>U+DC80 .. U+DCFF\<close>.
\<close>

datatype stdout_handler = Strict | Surrogateescape

definition stdout_accepts :: "stdout_handler \<Rightarrow> py_str \<Rightarrow> bool" where
  "stdout_accepts handler text =
     list_all (\<lambda>c. case utf8_char c of
                     Some e \<Rightarrow> True
                   | None \<Rightarrow> handler = Surrogateescape \<and> 0xDC80 \<le> c \<and> c \<le> 0xDCFF) text"

section \<open>The numeric kernel\<close>

text \<open>
  The sample arithmetic of the program is NumPy floating point. It is not interpreted
  here: the operations are parameters, and everything proved below holds for every
  choice of them. \<open>'a\<close> is the type of a float sample, \<open>'w\<close> of a sample as stored in the
  WAV file, \<open>'p\<close> of a power returned by \<^verbatim>\<open>correlate_with_frequency\<close>.
  \<^item> \<open>zero\<close>: an element of \<^verbatim>\<open>np.zeros(n)\<close>;
  \<^item> \<open>tone freq baud n k\<close>: element \<open>k\<close> of
    \<^verbatim>\<open>0.8 * np.sin(2 * np.pi * freq * np.linspace(0, 1/baud, n))\<close>;
  \<^item> \<open>to_pcm\<close>: \<^verbatim>\<open>(x * 32767).astype(np.int16)\<close> on one sample;
  \<^item> \<open>from_pcm\<close>: the normalisation \<^verbatim>\<open>astype(np.float32) / 32767.0\<close> (or the variant
    for the file's sample type) on one sample;
  \<^item> \<open>loud\<close>: \<^verbatim>\<open>abs(x) > 0.01\<close>;
  \<^item> \<open>correlate segment freq sample_rate\<close>: \<^verbatim>\<open>correlate_with_frequency\<close>.

  The record also holds the error handler of the standard output the program runs with.
\<close>

record ('a, 'w, 'p) kernel =
  zero :: 'a
  tone :: "int \<Rightarrow> nat \<Rightarrow> nat \<Rightarrow> nat \<Rightarrow> 'a"
  to_pcm :: "'a \<Rightarrow> 'w"
  from_pcm :: "'w \<Rightarrow> 'a"
  loud :: "'a \<Rightarrow> bool"
  correlate :: "'a list \<Rightarrow> int \<Rightarrow> nat \<Rightarrow> 'p"
  stdout :: stdout_handler

section \<open>Waveform synthesizer\<close>

text \<open>
  One iteration of the loop of \<^verbatim>\<open>encode_to_audio\<close>:
  \<^verbatim>\<open>freq = self.freq_1 if bit == 1 else self.freq_0\<close>, then the sinusoid over
  \<^verbatim>\<open>np.linspace(0, 1/self.baud_rate, int(self.bit_duration))\<close>.
\<close>

definition bit_signal :: "('a, 'w, 'p) kernel \<Rightarrow> modem \<Rightarrow> int \<Rightarrow> 'a list" where
  "bit_signal K m bit_val =
     (let freq = (if bit_val = 1 then freq_1 m else freq_0 m);
          n = bit_samples m
      in map (tone K freq (baud_rate m) n) [0..<n])"

text \<open>
  \<^verbatim>\<open>encode_to_audio\<close>. \<open>Inr None\<close>: the method returned \<^verbatim>\<open>False\<close> and wrote nothing;
  \<open>Inr (Some w)\<close>: it wrote the samples \<open>w\<close> and returned \<^verbatim>\<open>True\<close>; \<open>Inl e\<close>: the
  exception \<open>e\<close> left the method. The first statement prints the text and raises
  \<^verbatim>\<open>UnicodeEncodeError\<close> when the standard output does not accept it; the other prints
  are of constant strings and numbers. \<^verbatim>\<open>1/self.baud_rate\<close> divides by zero when the
  baud rate is 0.
\<close>

definition encode_to_audio ::
  "('a, 'w, 'p) kernel \<Rightarrow> modem \<Rightarrow> py_str \<Rightarrow> py_error + 'w list option" where
  "encode_to_audio K m text =
     (if \<not> stdout_accepts (stdout K) text then Inl UnicodeEncodeError
      else
        (case text_to_bits text of
           Inl err \<Rightarrow> Inl err
         | Inr bits \<Rightarrow>
             if bits = [] then Inr None
             else if baud_rate m = 0 then Inl ZeroDivisionError
             else
               let silence = replicate (silence_duration m) (zero K);
                   audio_data = silence @ concat (map (bit_signal K m) bits) @ silence
               in Inr (Some (map (to_pcm K) audio_data))))"

section \<open>Signal demodulator\<close>

text \<open>
  The alignment loop of \<^verbatim>\<open>decode_from_audio\<close>: the index of the first sample with
  \<^verbatim>\<open>abs(audio_data[i]) > threshold\<close>, if any, and
  \<^verbatim>\<open>start_idx = max(0, i - samples_per_bit//4)\<close>; \<open>start_idx\<close> stays 0 when no sample
  is loud. Subtraction on \<open>nat\<close> stops at 0, which is the \<^verbatim>\<open>max(0, _)\<close>.
\<close>

fun first_loud :: "('a \<Rightarrow> bool) \<Rightarrow> 'a list \<Rightarrow> nat option" where
  "first_loud is_loud [] = None"
| "first_loud is_loud (x # xs) =
     (if is_loud x then Some 0 else map_option Suc (first_loud is_loud xs))"

definition find_start :: "('a \<Rightarrow> bool) \<Rightarrow> nat \<Rightarrow> 'a list \<Rightarrow> nat" where
  "find_start is_loud spb audio_data =
     (case first_loud is_loud audio_data of
        None \<Rightarrow> 0
      | Some i \<Rightarrow> i - spb div 4)"

text \<open>
  The block loop of \<^verbatim>\<open>decode_from_audio\<close>:
  \<^verbatim>\<open>for i in range(0, total_samples - samples_per_bit, samples_per_bit)\<close>, that is, for
  every multiple \<open>i\<close> of the block size with \<open>i < total_samples - samples_per_bit\<close>; the
  body slices the segment, leaves the loop when it is short, and appends 1 when
  \<^verbatim>\<open>power_1 > power_0\<close> and 0 otherwise. A step of 0 makes \<^verbatim>\<open>range\<close> raise, which the
  caller of \<open>block_walk\<close> handles; here the guard \<open>0 < spb\<close> only makes the recursion
  total.
\<close>

function block_walk ::
  "('a list \<Rightarrow> int \<Rightarrow> nat \<Rightarrow> 'p::ord) \<Rightarrow> modem \<Rightarrow> nat \<Rightarrow> nat \<Rightarrow> 'a list \<Rightarrow> nat \<Rightarrow> int list" where
  "block_walk corr m rate spb audio_data i =
     (if 0 < spb \<and> i + spb < length audio_data then
        (let segment = take spb (drop i audio_data) in
         if length segment < spb then []
         else
           (let power_0 = corr segment (freq_0 m) rate;
                power_1 = corr segment (freq_1 m) rate
            in (if power_1 > power_0 then 1 else 0)
               # block_walk corr m rate spb audio_data (i + spb)))
      else [])"
  by pat_completeness auto
termination
  by (relation "measure (\<lambda>(corr, m, rate, spb, audio_data, i). length audio_data - i)") auto

text \<open>
  Lines 215 to 256 of \<^verbatim>\<open>decode_from_audio\<close>: block size, alignment, block walk.
  The result is the list \<^verbatim>\<open>bits\<close>, or the \<^verbatim>\<open>ValueError\<close> of \<^verbatim>\<open>range\<close> with step 0,
  or the \<^verbatim>\<open>ZeroDivisionError\<close> of \<^verbatim>\<open>sample_rate / self.baud_rate\<close>.
\<close>

definition demodulate ::
  "('a, 'w, 'p::ord) kernel \<Rightarrow> modem \<Rightarrow> nat \<Rightarrow> 'a list \<Rightarrow> py_error + int list" where
  "demodulate K m rate audio_data =
     (if baud_rate m = 0 then Inl ZeroDivisionError
      else
        let spb = samples_per_bit rate (baud_rate m);
            start_idx = find_start (loud K) spb audio_data;
            audio_data = drop start_idx audio_data
        in if spb = 0 then Inl ValueError
           else Inr (block_walk (correlate K) m rate spb audio_data 0))"

section \<open>Codec facade\<close>

text \<open>
  \<^verbatim>\<open>decode_from_audio\<close> on the pair \<^verbatim>\<open>read(input_file)\<close> returned. The diagnostic
  \<^verbatim>\<open>len(audio_data) / sample_rate\<close> divides by the rate of the file. The whole body is
  inside \<^verbatim>\<open>try ... except Exception\<close>, which returns the empty string.
\<close>

definition decode_body ::
  "('a, 'w, 'p::ord) kernel \<Rightarrow> modem \<Rightarrow> nat \<times> 'w list \<Rightarrow> py_error + py_str" where
  "decode_body K m file =
     (let rate = fst file;
          audio_data = map (from_pcm K) (snd file)
      in if rate = 0 then Inl ZeroDivisionError
         else
           (case demodulate K m rate audio_data of
              Inl err \<Rightarrow> Inl err
            | Inr bits \<Rightarrow> bits_to_text bits))"

definition decode_from_audio ::
  "('a, 'w, 'p::ord) kernel \<Rightarrow> modem \<Rightarrow> nat \<times> 'w list \<Rightarrow> py_str" where
  "decode_from_audio K m file =
     (case decode_body K m file of
        Inl err \<Rightarrow> []
      | Inr decoded_text \<Rightarrow> decoded_text)"

section \<open>The specification's own words\<close>

text \<open>
  The wire format as the specification gives it:
  \<open>[0xAA][0x55][0xAA][0x55][len_lo][len_hi][payload bytes...]\<close>, the length
  little-endian, and every byte written most significant bit first.
\<close>

definition msb_first :: "int \<Rightarrow> int list" where
  "msb_first b = map (\<lambda>k. b div 2 ^ (7 - k) mod 2) [0..<8]"

definition spec_frame :: "py_bytes \<Rightarrow> py_bytes" where
  "spec_frame payload =
     [0xAA, 0x55, 0xAA, 0x55]
     @ [int (length payload) mod 256, int (length payload) div 256]
     @ payload"

text \<open>
  The packed bytes contain a 4-byte window equal to the start marker: some index of the
  byte list starts one.
\<close>

definition has_marker_window :: "int list \<Rightarrow> bool" where
  "has_marker_window bytes_data =
     list_ex (\<lambda>i. take 4 (drop i bytes_data) = start_marker) [0..<length bytes_data]"

text \<open>
  The first marker window of the byte list starts at index \<open>j\<close>: the scan is left to
  right and stops at the first match.
\<close>

definition first_marker_at :: "int list \<Rightarrow> nat \<Rightarrow> bool" where
  "first_marker_at bytes_data j =
     (take 4 (drop j bytes_data) = start_marker
      \<and> \<not> list_ex (\<lambda>i. take 4 (drop i bytes_data) = start_marker) [0..<j])"

text \<open>
  Block \<open>k\<close> of the non-overlapping blocks of \<open>spb\<close> samples that start at the
  effective start of the waveform.
\<close>

definition block_at :: "nat \<Rightarrow> 'a list \<Rightarrow> nat \<Rightarrow> 'a list" where
  "block_at spb audio_data k = take spb (drop (k * spb) audio_data)"

text \<open>
  A small kernel on integer samples, to run the demodulator on concrete inputs: a sample
  is loud when its magnitude exceeds 1, and the power of a block at a frequency is the
  sum of the block times the frequency. Its standard output is strict.
\<close>

definition sum_kernel :: "(int, int, int) kernel" where
  "sum_kernel = \<lparr>zero = 0, tone = (\<lambda>f b n k. 0), to_pcm = id, from_pcm = id,
                  loud = (\<lambda>x. 1 < \<bar>x\<bar>), correlate = (\<lambda>seg f r. sum_list seg * f),
                  stdout = Strict\<rparr>"

declare block_walk.simps [simp del]
declare pack_bytes.simps [simp del]
declare bytes_decode_utf8_ignore.simps(2) [simp del]

section \<open>Serialisation: \<^verbatim>\<open>text_to_bits\<close>\<close>

lemma byte_bits_msb_first: "byte_bits b = msb_first b"
  by (simp add: byte_bits_def msb_first_def upt_rec and_one_eq drop_bit_eq_div)

lemma length_byte_bits: "length (byte_bits b) = 8"
  by (simp add: byte_bits_def)

lemma is_bits_byte_bits: "is_bits (byte_bits b)"
  by (simp add: byte_bits_def is_bits_def and_one_eq) presburger

lemma is_bits_append: "is_bits (xs @ ys) = (is_bits xs \<and> is_bits ys)"
  by (simp add: is_bits_def)

lemma is_bits_concat_byte_bits: "is_bits (concat (map byte_bits bs))"
  by (induction bs) (simp_all add: is_bits_append is_bits_byte_bits, simp add: is_bits_def)

lemma length_concat_byte_bits: "length (concat (map byte_bits bs)) = 8 * length bs"
  by (induction bs) (simp_all add: length_byte_bits)

lemma text_to_bits_ok:
  assumes "str_encode_utf8 s = Inr payload" and "length payload \<le> 65535"
  shows "text_to_bits s = Inr (concat (map byte_bits (spec_frame payload)))"
  using assms by (simp add: text_to_bits_def to_bytes_2_little_def spec_frame_def start_marker_def)

lemma str_encode_utf8_ascii: "str_encode_utf8 (replicate n 97) = Inr (replicate n 97)"
  by (induction n) (simp_all add: utf8_char_def)

lemma encodable_chars:
  "str_encode_utf8 s = Inr payload \<Longrightarrow> c \<in> set s \<Longrightarrow> \<exists>e. utf8_char c = Some e"
  by (induction s arbitrary: payload) (auto split: option.splits sum.splits)

lemma stdout_accepts_encodable:
  assumes "str_encode_utf8 s = Inr payload"
  shows "stdout_accepts handler s"
  unfolding stdout_accepts_def list_all_iff
proof
  fix c
  assume "c \<in> set s"
  with assms obtain e where "utf8_char c = Some e"
    using encodable_chars by blast
  then show "case utf8_char c of None \<Rightarrow> handler = Surrogateescape \<and> 0xDC80 \<le> c \<and> c \<le> 0xDCFF
             | Some e \<Rightarrow> True"
    by simp
qed

lemma unencodable_char:
  "str_encode_utf8 s = Inl err \<Longrightarrow> \<exists>c\<in>set s. utf8_char c = None"
  by (induction s arbitrary: err) (auto split: option.splits sum.splits)

lemma stdout_strict_rejects:
  assumes "str_encode_utf8 s = Inl err"
  shows "\<not> stdout_accepts Strict s"
proof -
  from assms obtain c where c: "c \<in> set s" and none: "utf8_char c = None"
    using unencodable_char by blast
  have "\<not> (case utf8_char c of
              None \<Rightarrow> Strict = Surrogateescape \<and> 0xDC80 \<le> c \<and> c \<le> 0xDCFF
            | Some e \<Rightarrow> True)"
    by (simp add: none)
  with c show ?thesis
    unfolding stdout_accepts_def list_all_iff by blast
qed

lemma str_encode_utf8_error: "str_encode_utf8 s = Inl err \<Longrightarrow> err = UnicodeEncodeError"
  by (induction s arbitrary: err) (auto split: option.splits sum.splits)

text \<open>
  Claim C2, as far as the code goes: for every string whose UTF-8 encoding \<open>payload\<close>
  exists and has at most 65535 bytes, \<^verbatim>\<open>text_to_bits\<close> returns the bits, most
  significant first, of the marker bytes \<open>0xAA 0x55 0xAA 0x55\<close>, the two bytes of the
  length (low byte first) and the payload; there are \<open>48 + 8 * length payload\<close> of them
  and each is 0 or 1.
\<close>

theorem text_to_bits_frame:
  assumes "str_encode_utf8 s = Inr payload" and "length payload \<le> 65535"
  shows "text_to_bits s = Inr (concat (map msb_first (spec_frame payload)))
         \<and> length (concat (map msb_first (spec_frame payload))) = 48 + 8 * length payload
         \<and> is_bits (concat (map msb_first (spec_frame payload)))"
proof -
  have "byte_bits = msb_first"
    by (rule ext) (rule byte_bits_msb_first)
  then have eq: "concat (map msb_first bs) = concat (map byte_bits bs)" for bs
    by simp
  have "length (spec_frame payload) = 6 + length payload"
    by (simp add: spec_frame_def)
  then show ?thesis
    using text_to_bits_ok [OF assms]
    by (simp add: eq length_concat_byte_bits is_bits_concat_byte_bits)
qed

theorem text_to_bits_frame_witness:
  "str_encode_utf8 [72, 105] = Inr [72, 105] \<and> length [72, 105 :: int] \<le> 65535
   \<and> text_to_bits [72, 105] = Inr (concat (map msb_first (spec_frame [72, 105])))
   \<and> length (concat (map msb_first (spec_frame [72, 105]))) = 64
   \<and> is_bits (concat (map msb_first (spec_frame [72, 105])))"
  using text_to_bits_frame [of "[72, 105]" "[72, 105]"]
  by (simp add: utf8_char_def)

text \<open>
  Claim C2 as stated, for every encodable string, fails: the 65536 bytes of 65536
  letters \<open>a\<close> have no two-byte length, and \<^verbatim>\<open>text_to_bits\<close> raises \<^verbatim>\<open>OverflowError\<close>
  instead of returning the frame.
\<close>

theorem text_to_bits_long_counterexample:
  "str_encode_utf8 (replicate 65536 97) = Inr (replicate 65536 97)
   \<and> text_to_bits (replicate 65536 97) = Inl OverflowError
   \<and> text_to_bits (replicate 65536 97)
       \<noteq> Inr (concat (map msb_first (spec_frame (replicate 65536 97))))"
  by (simp add: str_encode_utf8_ascii text_to_bits_def to_bytes_2_little_def)

text \<open>
  Claim C10: for every string whose UTF-8 encoding is longer than 65535 bytes,
  \<^verbatim>\<open>text_to_bits\<close> raises \<^verbatim>\<open>OverflowError\<close>, and nothing catches it: it leaves
  \<^verbatim>\<open>encode_to_audio\<close> as well.
\<close>

theorem text_to_bits_overflow:
  assumes "str_encode_utf8 s = Inr payload" and "65535 < length payload"
  shows "text_to_bits s = Inl OverflowError \<and> encode_to_audio K m s = Inl OverflowError"
  using assms stdout_accepts_encodable [OF assms(1), of "stdout K"]
  by (simp add: text_to_bits_def encode_to_audio_def to_bytes_2_little_def)

theorem text_to_bits_overflow_witness:
  "str_encode_utf8 (replicate 65536 97) = Inr (replicate 65536 97)
   \<and> 65535 < length (replicate 65536 (97 :: int))
   \<and> text_to_bits (replicate 65536 97) = Inl OverflowError
   \<and> (\<forall>K m. encode_to_audio K m (replicate 65536 97) = Inl OverflowError)"
  using text_to_bits_overflow [of "replicate 65536 97" "replicate 65536 97"]
  by (auto simp: str_encode_utf8_ascii)

text \<open>
  Claim C5, as the code has it: for every text with no UTF-8 encoding,
  \<^verbatim>\<open>text_to_bits\<close> does not fail: it catches the \<^verbatim>\<open>UnicodeEncodeError\<close> and returns
  the empty bit list. \<^verbatim>\<open>encode_to_audio\<close> writes no waveform for such a text: when the
  standard output does not accept the text, which is always so under the strict
  handler, its first \<^verbatim>\<open>print\<close> raises \<^verbatim>\<open>UnicodeEncodeError\<close> to the caller; otherwise
  it returns \<^verbatim>\<open>False\<close>.
\<close>

theorem unencodable_text:
  assumes "str_encode_utf8 s = Inl UnicodeEncodeError"
  shows "text_to_bits s = Inr []
         \<and> encode_to_audio K m s
             = (if stdout_accepts (stdout K) s then Inr None else Inl UnicodeEncodeError)
         \<and> (stdout K = Strict \<longrightarrow> encode_to_audio K m s = Inl UnicodeEncodeError)"
  using assms stdout_strict_rejects [OF assms]
  by (simp add: text_to_bits_def encode_to_audio_def)

theorem unencodable_text_witness:
  "str_encode_utf8 [0x48, 0xDC80] = Inl UnicodeEncodeError
   \<and> text_to_bits [0x48, 0xDC80] = Inr []
   \<and> stdout sum_kernel = Strict
   \<and> encode_to_audio sum_kernel default_modem [0x48, 0xDC80] = Inl UnicodeEncodeError
   \<and> stdout_accepts (stdout (sum_kernel\<lparr>stdout := Surrogateescape\<rparr>)) [0x48, 0xDC80]
   \<and> encode_to_audio (sum_kernel\<lparr>stdout := Surrogateescape\<rparr>) default_modem [0x48, 0xDC80]
       = Inr None"
proof -
  have enc: "str_encode_utf8 [0x48, 0xDC80] = Inl UnicodeEncodeError"
    by (simp add: utf8_char_def)
  have strict: "stdout sum_kernel = Strict"
    by (simp add: sum_kernel_def)
  have esc: "stdout_accepts (stdout (sum_kernel\<lparr>stdout := Surrogateescape\<rparr>)) [0x48, 0xDC80]"
    by (simp add: stdout_accepts_def utf8_char_def)
  from unencodable_text [OF enc, of sum_kernel default_modem] strict
  have a: "text_to_bits [0x48, 0xDC80] = Inr []"
    and b: "encode_to_audio sum_kernel default_modem [0x48, 0xDC80] = Inl UnicodeEncodeError"
    by blast+
  from unencodable_text [OF enc, of "sum_kernel\<lparr>stdout := Surrogateescape\<rparr>" default_modem] esc
  have c: "encode_to_audio (sum_kernel\<lparr>stdout := Surrogateescape\<rparr>) default_modem
             [0x48, 0xDC80] = Inr None"
    by (simp only: if_True)
  show ?thesis
    using enc a strict b esc c by blast
qed

text \<open>
  Claim C5 as stated fails: the lone surrogate \<open>U+D800\<close> has no UTF-8 encoding, and
  \<^verbatim>\<open>text_to_bits\<close> returns a value, the empty list, not an error.
\<close>

theorem surrogate_counterexample:
  "str_encode_utf8 [0xD800] = Inl UnicodeEncodeError
   \<and> text_to_bits [0xD800] = Inr []
   \<and> text_to_bits [0xD800] \<noteq> Inl UnicodeEncodeError"
  by (simp add: text_to_bits_def utf8_char_def)

section \<open>Samples per bit\<close>

lemma py_int_quotient: "py_int (real a / real b) = int (a div b)"
  by (simp add: py_int_def floor_divide_of_nat_eq)

text \<open>
  Claim C3, as the code has it: for positive rates in the range where the float quotient
  truncates as the exact one (\<open>sample_rate + baud_rate < 2 ^ 53\<close>), the number of samples
  the synthesizer generates for a bit and the block size of the demodulator are both the
  quotient \<open>sample_rate / baud_rate\<close> truncated to an integer, and that is at least 1
  exactly when the baud rate does not exceed the sample rate.
\<close>

theorem samples_per_bit_truncates:
  assumes "0 < sample_rate m" and "0 < baud_rate m"
    and "float_exact (sample_rate m) (baud_rate m)"
  shows "length (bit_signal K m b) = sample_rate m div baud_rate m
         \<and> samples_per_bit (sample_rate m) (baud_rate m) = sample_rate m div baud_rate m
         \<and> (1 \<le> sample_rate m div baud_rate m) = (baud_rate m \<le> sample_rate m)"
proof -
  have "1 \<le> sample_rate m div baud_rate m \<longleftrightarrow> baud_rate m \<le> sample_rate m"
    using assms(2) by (metis One_nat_def Suc_leI div_greater_zero_iff not_less_eq_eq not_less)
  then show ?thesis
    by (simp add: bit_signal_def bit_samples_def bit_duration_def samples_per_bit_def
        py_int_quotient Let_def)
qed

theorem samples_per_bit_truncates_witness:
  "0 < sample_rate default_modem \<and> 0 < baud_rate default_modem
   \<and> float_exact (sample_rate default_modem) (baud_rate default_modem)
   \<and> (\<forall>K b. length (bit_signal K default_modem b) = 26)
   \<and> samples_per_bit (sample_rate default_modem) (baud_rate default_modem) = 26"
  using samples_per_bit_truncates [of default_modem]
  by (auto simp: default_modem_def float_exact_def)

text \<open>
  Claim C3 as stated fails: at the default 8000 Hz and 300 baud the code uses 26 samples
  per bit where rounding to the nearest integer gives 27, and at 100 Hz and 300 baud it
  uses 0, which is not at least 1.
\<close>

theorem samples_per_bit_counterexample:
  "bit_samples default_modem = 26 \<and> samples_per_bit 8000 300 = 26
   \<and> spec_samples_per_bit 8000 300 = 27 \<and> samples_per_bit 100 300 = 0"
  by (simp add: bit_samples_def bit_duration_def samples_per_bit_def spec_samples_per_bit_def
      default_modem_def py_int_def round_def)

section \<open>Deserialisation: \<^verbatim>\<open>bits_to_text\<close>\<close>

lemma has_marker_window_iff:
  "has_marker_window bs \<longleftrightarrow> (\<exists>i<length bs. take 4 (drop i bs) = start_marker)"
  by (auto simp: has_marker_window_def list_ex_iff)

lemma has_marker_window_Cons:
  "has_marker_window (b # bs) \<longleftrightarrow> take 4 (b # bs) = start_marker \<or> has_marker_window bs"
proof -
  have "(\<exists>i<Suc (length bs). take 4 (drop i (b # bs)) = start_marker)
        \<longleftrightarrow> take 4 (drop 0 (b # bs)) = start_marker
            \<or> (\<exists>i<length bs. take 4 (drop (Suc i) (b # bs)) = start_marker)"
    by (rule Ex_less_Suc2)
  then show ?thesis
    by (simp add: has_marker_window_iff)
qed

lemma find_marker_None_iff: "find_marker bs = None \<longleftrightarrow> \<not> has_marker_window bs"
proof (induction bs)
  case Nil
  show ?case by (simp add: has_marker_window_def)
next
  case (Cons b bs)
  then show ?case
    by (simp only: find_marker.simps has_marker_window_Cons split: if_splits) auto
qed

text \<open>
  Claim C6: for every bit sequence of fewer than 48 bits, and for every bit sequence
  whose packed bytes contain no 4-byte window equal to \<open>0xAA 0x55 0xAA 0x55\<close>,
  \<^verbatim>\<open>bits_to_text\<close> returns the empty string; it raises nothing.
\<close>

theorem no_frame_empty_text:
  assumes "length bits < 48 \<or> \<not> has_marker_window (pack_bytes bits)"
  shows "bits_to_text bits = Inr []"
  using assms
  by (auto simp: bits_to_text_def Let_def find_marker_None_iff [symmetric])

theorem no_frame_empty_text_witness:
  "(length [1, 0, 1 :: int] < 48 \<or> \<not> has_marker_window (pack_bytes [1, 0, 1]))
   \<and> bits_to_text [1, 0, 1] = Inr []
   \<and> \<not> length (replicate 64 (0 :: int)) < 48
   \<and> \<not> has_marker_window (pack_bytes (replicate 64 0))
   \<and> bits_to_text (replicate 64 0) = Inr []"
proof -
  have "\<not> has_marker_window (pack_bytes (replicate 64 0))"
    by code_simp
  then show ?thesis
    using no_frame_empty_text [of "[1, 0, 1]"] no_frame_empty_text [of "replicate 64 0"]
    by simp
qed

section \<open>Demodulation: the block walk\<close>

lemma block_walk_step:
  assumes "0 < spb" and "i + spb < length audio_data"
  shows "block_walk corr m rate spb audio_data i
         = (if corr (take spb (drop i audio_data)) (freq_1 m) rate
              > corr (take spb (drop i audio_data)) (freq_0 m) rate then 1 else 0)
           # block_walk corr m rate spb audio_data (i + spb)"
proof -
  have "\<not> length (take spb (drop i audio_data)) < spb"
    using assms by (simp add: min_def)
  then show ?thesis
    using assms by (subst block_walk.simps) (simp only: Let_def if_True if_False simp_thms)
qed

lemma block_walk_stop:
  assumes "\<not> (0 < spb \<and> i + spb < length audio_data)"
  shows "block_walk corr m rate spb audio_data i = []"
  using assms by (subst block_walk.simps) (simp only: if_False)


lemma length_block_walk:
  "0 < spb \<Longrightarrow>
   length (block_walk corr m rate spb audio_data i) = (length audio_data - i - 1) div spb"
proof (induction "length audio_data - i" arbitrary: i rule: less_induct)
  case less
  show ?case
  proof (cases "i + spb < length audio_data")
    case True
    have "length audio_data - (i + spb) < length audio_data - i"
      using True less.prems by linarith
    then have IH: "length (block_walk corr m rate spb audio_data (i + spb))
               = (length audio_data - (i + spb) - 1) div spb"
      using less.hyps less.prems by blast
    have "length audio_data - i - 1 = (length audio_data - (i + spb) - 1) + spb"
      using True by linarith
    moreover have "(length audio_data - (i + spb) - 1 + spb) div spb
               = Suc ((length audio_data - (i + spb) - 1) div spb)"
      using less.prems by simp
    ultimately have "(length audio_data - i - 1) div spb
               = Suc ((length audio_data - (i + spb) - 1) div spb)"
      by (rule ssubst)
    then show ?thesis
      using IH by (simp only: block_walk_step [OF less.prems True] list.size length_Cons)
  next
    case False
    then have "length audio_data - i - 1 < spb"
      using less.prems by linarith
    then have "(length audio_data - i - 1) div spb = 0"
      by (rule div_less)
    then show ?thesis
      using False by (simp add: block_walk_stop)
  qed
qed

lemma nth_block_walk:
  "k < length (block_walk corr m rate spb audio_data i) \<Longrightarrow>
   block_walk corr m rate spb audio_data i ! k
     = (if corr (take spb (drop (i + k * spb) audio_data)) (freq_1 m) rate
          > corr (take spb (drop (i + k * spb) audio_data)) (freq_0 m) rate
        then 1 else 0)"
proof (induction k arbitrary: i)
  case 0
  then have "0 < spb \<and> i + spb < length audio_data"
    by (cases "0 < spb \<and> i + spb < length audio_data") (simp_all add: block_walk_stop)
  then have "0 < spb" and "i + spb < length audio_data"
    by blast+
  then show ?case
    by (simp add: block_walk_step [of spb i audio_data])
next
  case (Suc k)
  then have go: "0 < spb \<and> i + spb < length audio_data"
    by (cases "0 < spb \<and> i + spb < length audio_data") (simp_all add: block_walk_stop)
  then have step: "block_walk corr m rate spb audio_data i
         = (if corr (take spb (drop i audio_data)) (freq_1 m) rate
              > corr (take spb (drop i audio_data)) (freq_0 m) rate then 1 else 0)
           # block_walk corr m rate spb audio_data (i + spb)"
    by (intro block_walk_step) blast+
  with Suc.prems have "k < length (block_walk corr m rate spb audio_data (i + spb))"
    by simp
  then have "block_walk corr m rate spb audio_data (i + spb) ! k
     = (if corr (take spb (drop (i + spb + k * spb) audio_data)) (freq_1 m) rate
          > corr (take spb (drop (i + spb + k * spb) audio_data)) (freq_0 m) rate
        then 1 else 0)"
    by (rule Suc.IH)
  moreover have "i + spb + k * spb = i + Suc k * spb"
    by simp
  ultimately show ?case
    by (simp only: step nth_Cons_Suc)
qed

lemma first_loud_replicate:
  "first_loud is_loud (replicate n x) = (if is_loud x \<and> 0 < n then Some 0 else None)"
  by (induction n) auto

lemma find_start_replicate: "find_start is_loud spb (replicate n x) = 0"
  by (simp add: find_start_def first_loud_replicate)


lemma samples_per_bit_div: "samples_per_bit rate baud = rate div baud"
  by (simp add: samples_per_bit_def py_int_quotient)

lemma demodulate_Inr:
  assumes "demodulate K m rate audio_data = Inr bits"
  shows "0 < samples_per_bit rate (baud_rate m)
         \<and> bits = block_walk (correlate K) m rate (samples_per_bit rate (baud_rate m))
                    (drop (find_start (loud K) (samples_per_bit rate (baud_rate m)) audio_data)
                       audio_data) 0"
  using assms by (auto simp: demodulate_def Let_def split: if_splits)

lemma demodulate_count:
  fixes K :: "('a, 'w, 'p::ord) kernel"
  assumes "demodulate K m rate audio_data = Inr bits"
  shows "length bits
         = (length audio_data
            - find_start (loud K) (samples_per_bit rate (baud_rate m)) audio_data - 1)
           div samples_per_bit rate (baud_rate m)"
  using demodulate_Inr [OF assms] by (simp add: length_block_walk)

text \<open>
  Claim C4: for every block the demodulator decides, the bit it emits is 1 if and only
  if the power at the mark frequency \<^verbatim>\<open>freq_1\<close> is strictly greater than the power at
  the space frequency \<^verbatim>\<open>freq_0\<close>; otherwise, and in particular when the two powers are
  equal, the bit is 0.
\<close>

theorem strict_mark_decision:
  fixes K :: "('a, 'w, 'p::preorder) kernel"
  assumes "demodulate K m rate audio_data = Inr bits" and "k < length bits"
  shows "let spb = samples_per_bit rate (baud_rate m);
             block = block_at spb (drop (find_start (loud K) spb audio_data) audio_data) k;
             power_0 = correlate K block (freq_0 m) rate;
             power_1 = correlate K block (freq_1 m) rate
         in (bits ! k = 1 \<longleftrightarrow> power_0 < power_1)
            \<and> (bits ! k = 0 \<longleftrightarrow> \<not> power_0 < power_1)
            \<and> (power_0 = power_1 \<longrightarrow> bits ! k = 0)"
proof -
  define spb where "spb = samples_per_bit rate (baud_rate m)"
  define rest where "rest = drop (find_start (loud K) spb audio_data) audio_data"
  have bits: "bits = block_walk (correlate K) m rate spb rest 0"
    using demodulate_Inr [OF assms(1)] by (simp add: spb_def rest_def)
  have "bits ! k
        = (if correlate K (block_at spb rest k) (freq_0 m) rate
              < correlate K (block_at spb rest k) (freq_1 m) rate then 1 else 0)"
    using nth_block_walk [of k "correlate K" m rate spb rest 0] assms(2)
    by (simp add: bits block_at_def)
  then show ?thesis
    by (simp add: Let_def spb_def [symmetric] rest_def [symmetric])
qed

theorem strict_mark_decision_witness:
  "demodulate sum_kernel default_modem 600 [5, 5, 0, 0, 3, - 3, 1, 1] = Inr [1, 0, 0]
   \<and> (1 :: nat) < length [1, 0, 0 :: int]
   \<and> correlate sum_kernel (block_at 2 [5, 5, 0, 0, 3, - 3, 1, 1] 1) (freq_0 default_modem) 600
       = correlate sum_kernel (block_at 2 [5, 5, 0, 0, 3, - 3, 1, 1] 1) (freq_1 default_modem) 600
   \<and> [1, 0, 0 :: int] ! 1 = 0
   \<and> correlate sum_kernel (block_at 2 [5, 5, 0, 0, 3, - 3, 1, 1] 0) (freq_0 default_modem) 600
       < correlate sum_kernel (block_at 2 [5, 5, 0, 0, 3, - 3, 1, 1] 0) (freq_1 default_modem) 600
   \<and> [1, 0, 0 :: int] ! 0 = 1"
proof -
  have walk: "block_walk (correlate sum_kernel) default_modem 600 2 [5, 5, 0, 0, 3, - 3, 1, 1] 0
              = [1, 0, 0]"
    by code_simp
  have start: "find_start (loud sum_kernel) 2 [5, 5, 0, 0, 3, - 3, 1, 1] = 0"
    by code_simp
  have spb: "samples_per_bit 600 (baud_rate default_modem) = 2"
    by (simp add: samples_per_bit_div default_modem_def)
  have dem: "demodulate sum_kernel default_modem 600 [5, 5, 0, 0, 3, - 3, 1, 1] = Inr [1, 0, 0]"
    by (simp add: demodulate_def spb start walk) (simp add: default_modem_def)
  have power: "correlate sum_kernel seg f r = sum_list seg * f" for seg f r
    by (simp add: sum_kernel_def)
  have freq: "freq_0 default_modem = 1070" "freq_1 default_modem = 1270"
    by (simp_all add: default_modem_def)
  show ?thesis
    using strict_mark_decision [OF dem, of 1] strict_mark_decision [OF dem, of 0]
    by (simp add: dem spb start Let_def power freq block_at_def)
qed

text \<open>
  Claim C8 at a waveform of exactly two full blocks: 52 equal samples at 8000 Hz and
  300 baud, 26 samples per bit. The alignment starts at index 0, and the walk emits one
  bit, not two: the bound \<^verbatim>\<open>total_samples - samples_per_bit\<close> of \<^verbatim>\<open>range\<close> is
  exclusive, so the last full block is left out whenever the samples from the effective
  start are a whole number of blocks (see also \<open>demodulate_count\<close>).
\<close>

theorem last_full_block_dropped:
  fixes K :: "('a, 'w, 'p::ord) kernel"
  shows "samples_per_bit 8000 (baud_rate default_modem) = 26
         \<and> length (replicate 52 x) = 2 * 26
         \<and> (\<exists>b. demodulate K default_modem 8000 (replicate 52 x) = Inr [b])"
proof -
  have spb: "samples_per_bit 8000 (baud_rate default_modem) = 26"
    by (simp add: samples_per_bit_div default_modem_def)
  have "length (block_walk (correlate K) default_modem 8000 26 (replicate 52 x) 0) = 1"
    by (simp add: length_block_walk)
  then obtain b where "block_walk (correlate K) default_modem 8000 26 (replicate 52 x) 0 = [b]"
    by (auto simp: length_Suc_conv)
  then have "demodulate K default_modem 8000 (replicate 52 x) = Inr [b]"
    by (simp add: demodulate_def spb find_start_replicate) (simp add: default_modem_def)
  then show ?thesis
    using spb by auto
qed

section \<open>UTF-8: decoding what was encoded, whole or cut short\<close>

lemma seq2:
  assumes "2 \<le> a" "a \<le> 31" "0 \<le> d" "d < 64"
  shows "utf8_seq (0xC0 + a) ((0x80 + d) # rest) = Some (a * 64 + d, 1)"
  using assms by (simp add: utf8_seq_def is_cont_def)

lemma seq3:
  assumes "0 \<le> a" "a \<le> 15" "0 \<le> b" "b < 64" "0 \<le> d" "d < 64"
    and "a = 0 \<longrightarrow> 32 \<le> b" and "a = 13 \<longrightarrow> b \<le> 31"
  shows "utf8_seq (0xE0 + a) ((0x80 + b) # (0x80 + d) # rest) = Some (a * 4096 + b * 64 + d, 2)"
  using assms by (simp add: utf8_seq_def is_cont_def)

lemma seq4:
  assumes "0 \<le> a" "a \<le> 4" "0 \<le> b" "b < 64" "0 \<le> b'" "b' < 64" "0 \<le> d" "d < 64"
    and "a = 0 \<longrightarrow> 16 \<le> b" and "a = 4 \<longrightarrow> b \<le> 15"
  shows "utf8_seq (0xF0 + a) ((0x80 + b) # (0x80 + b') # (0x80 + d) # rest)
         = Some (a * 262144 + b * 4096 + b' * 64 + d, 3)"
  using assms by (simp add: utf8_seq_def is_cont_def)

lemma split64: "(c :: int) = c div 64 * 64 + c mod 64"
  by simp

lemma split4096: "(c :: int) = c div 4096 * 4096 + c div 64 mod 64 * 64 + c mod 64"
proof -
  have "c div 4096 = c div 64 div 64"
    by (simp add: zdiv_zmult2_eq [symmetric])
  moreover have "c div 64 = c div 64 div 64 * 64 + c div 64 mod 64"
    by simp
  moreover have "c = c div 64 * 64 + c mod 64"
    by simp
  ultimately show ?thesis
    by linarith
qed

lemma split262144:
  "(c :: int) = c div 262144 * 262144 + c div 4096 mod 64 * 4096 + c div 64 mod 64 * 64 + c mod 64"
proof -
  have "c div 262144 = c div 4096 div 64"
    by (simp add: zdiv_zmult2_eq [symmetric])
  moreover have "c div 4096 = c div 4096 div 64 * 64 + c div 4096 mod 64"
    by simp
  ultimately show ?thesis
    using split4096 [of c] by linarith
qed


lemma dec2:
  assumes "0x80 \<le> c" "c < 0x800"
  shows "bytes_decode_utf8_ignore ((0xC0 + c div 64) # (0x80 + c mod 64) # rest)
         = c # bytes_decode_utf8_ignore rest"
proof -
  define a where "a = c div 64"
  define d where "d = c mod 64"
  have c: "c = a * 64 + d"
    unfolding a_def d_def by simp
  have d: "0 \<le> d" "d < 64"
    unfolding d_def by simp_all
  have a: "2 \<le> a" "a \<le> 31"
    using assms c d by linarith+
  have "bytes_decode_utf8_ignore ((0xC0 + a) # (0x80 + d) # rest)
        = (a * 64 + d) # bytes_decode_utf8_ignore rest"
    using a by (simp add: bytes_decode_utf8_ignore.simps(2) seq2 [OF a d])
  then show ?thesis
    unfolding c [symmetric] unfolding a_def d_def .
qed

lemma dec3:
  assumes "0x800 \<le> c" "c < 0x10000" "\<not> (0xD800 \<le> c \<and> c \<le> 0xDFFF)"
  shows "bytes_decode_utf8_ignore
           ((0xE0 + c div 4096) # (0x80 + c div 64 mod 64) # (0x80 + c mod 64) # rest)
         = c # bytes_decode_utf8_ignore rest"
proof -
  define a where "a = c div 4096"
  define b where "b = c div 64 mod 64"
  define d where "d = c mod 64"
  have c: "c = a * 4096 + b * 64 + d"
    unfolding a_def b_def d_def by (rule split4096)
  have b: "0 \<le> b" "b < 64" and d: "0 \<le> d" "d < 64"
    unfolding b_def d_def by simp_all
  have a: "0 \<le> a" "a \<le> 15"
    using assms c b d by linarith+
  have lo: "a = 0 \<longrightarrow> 32 \<le> b"
    using assms(1) c d by auto
  have hi: "a = 13 \<longrightarrow> b \<le> 31"
    using assms c d b by auto
  have "bytes_decode_utf8_ignore ((0xE0 + a) # (0x80 + b) # (0x80 + d) # rest)
        = (a * 4096 + b * 64 + d) # bytes_decode_utf8_ignore rest"
    using a by (simp add: bytes_decode_utf8_ignore.simps(2) seq3 [OF a b d lo hi])
  then show ?thesis
    unfolding c [symmetric] unfolding a_def b_def d_def .
qed

lemma dec4:
  assumes "0x10000 \<le> c" "c < 0x110000"
  shows "bytes_decode_utf8_ignore
           ((0xF0 + c div 262144) # (0x80 + c div 4096 mod 64) # (0x80 + c div 64 mod 64)
             # (0x80 + c mod 64) # rest)
         = c # bytes_decode_utf8_ignore rest"
proof -
  define a where "a = c div 262144"
  define b where "b = c div 4096 mod 64"
  define b' where "b' = c div 64 mod 64"
  define d where "d = c mod 64"
  have c: "c = a * 262144 + b * 4096 + b' * 64 + d"
    unfolding a_def b_def b'_def d_def by (rule split262144)
  have b: "0 \<le> b" "b < 64" and b': "0 \<le> b'" "b' < 64" and d: "0 \<le> d" "d < 64"
    unfolding b_def b'_def d_def by simp_all
  have a: "0 \<le> a" "a \<le> 4"
    using assms c b b' d by linarith+
  have lo: "a = 0 \<longrightarrow> 16 \<le> b"
    using assms(1) c d b' by auto
  have hi: "a = 4 \<longrightarrow> b \<le> 15"
    using assms c d b b' by auto
  have "bytes_decode_utf8_ignore ((0xF0 + a) # (0x80 + b) # (0x80 + b') # (0x80 + d) # rest)
        = (a * 262144 + b * 4096 + b' * 64 + d) # bytes_decode_utf8_ignore rest"
    using a by (simp add: bytes_decode_utf8_ignore.simps(2) seq4 [OF a b b' d lo hi])
  then show ?thesis
    unfolding c [symmetric] unfolding a_def b_def b'_def d_def .
qed


lemma utf8_char_cases:
  assumes "utf8_char c = Some e"
  obtains
    (one) "0 \<le> c" "c < 0x80" "e = [c]"
  | (two) "0x80 \<le> c" "c < 0x800" "e = [0xC0 + c div 64, 0x80 + c mod 64]"
  | (three) "0x800 \<le> c" "c < 0x10000" "\<not> (0xD800 \<le> c \<and> c \<le> 0xDFFF)"
      "e = [0xE0 + c div 4096, 0x80 + c div 64 mod 64, 0x80 + c mod 64]"
  | (four) "0x10000 \<le> c" "c < 0x110000"
      "e = [0xF0 + c div 262144, 0x80 + c div 4096 mod 64, 0x80 + c div 64 mod 64,
            0x80 + c mod 64]"
proof (cases "c < 0x80")
  case True
  with assms have "0 \<le> c" "e = [c]"
    by (simp_all add: utf8_char_def split: if_splits)
  with True show ?thesis by (rule_tac one)
next
  case False
  note ge80 = this
  show ?thesis
  proof (cases "c < 0x800")
    case True
    with ge80 assms have "e = [0xC0 + c div 64, 0x80 + c mod 64]"
      by (simp add: utf8_char_def split: if_splits)
    with True ge80 show ?thesis by (rule_tac two) simp_all
  next
    case False
    note ge800 = this
    show ?thesis
    proof (cases "c < 0x10000")
      case True
      with ge800 assms have "\<not> (0xD800 \<le> c \<and> c \<le> 0xDFFF)"
        and "e = [0xE0 + c div 4096, 0x80 + c div 64 mod 64, 0x80 + c mod 64]"
        by (simp_all add: utf8_char_def split: if_splits)
      with True ge800 show ?thesis by (rule_tac three) simp_all
    next
      case False
      with assms have "c < 0x110000"
        and "e = [0xF0 + c div 262144, 0x80 + c div 4096 mod 64, 0x80 + c div 64 mod 64,
                  0x80 + c mod 64]"
        by (simp_all add: utf8_char_def split: if_splits)
      with False show ?thesis by (rule_tac four) simp_all
    qed
  qed
qed

lemma decode_utf8_char:
  assumes "utf8_char c = Some e"
  shows "bytes_decode_utf8_ignore (e @ rest) = c # bytes_decode_utf8_ignore rest"
  using assms
proof (cases rule: utf8_char_cases)
  case one
  then show ?thesis by (simp add: bytes_decode_utf8_ignore.simps(2))
next
  case two
  then show ?thesis by (simp add: dec2)
next
  case three
  then show ?thesis by (simp add: dec3)
next
  case four
  then show ?thesis by (simp add: dec4)
qed


lemma decode_skip:
  assumes "\<not> (0 \<le> x \<and> x < 0x80)" and "utf8_seq x rest = None"
  shows "bytes_decode_utf8_ignore (x # rest) = bytes_decode_utf8_ignore rest"
  using assms by (simp add: bytes_decode_utf8_ignore.simps(2))

lemma utf8_seq_Nil: "utf8_seq x [] = None"
  by (simp add: utf8_seq_def)

lemma utf8_seq_cont: "x < 0xC2 \<Longrightarrow> utf8_seq x rest = None"
  by (simp add: utf8_seq_def)

lemma utf8_seq_short1: "0xE0 \<le> x \<Longrightarrow> utf8_seq x [y] = None"
  by (simp add: utf8_seq_def)

lemma utf8_seq_short2: "0xF0 \<le> x \<Longrightarrow> utf8_seq x [y, z] = None"
  by (simp add: utf8_seq_def)

lemma decode_lead_only: "0x80 \<le> x \<Longrightarrow> bytes_decode_utf8_ignore [x] = []"
  by (simp add: decode_skip utf8_seq_Nil)

lemma decode_cont: "0x80 \<le> x \<Longrightarrow> x < 0xC0 \<Longrightarrow>
  bytes_decode_utf8_ignore (x # rest) = bytes_decode_utf8_ignore rest"
  by (simp add: decode_skip utf8_seq_cont)

lemma decode_partial_char:
  assumes "utf8_char c = Some e" and "n < length e"
  shows "bytes_decode_utf8_ignore (take n e) = []"
  using assms(1)
proof (cases rule: utf8_char_cases)
  case one
  with assms(2) show ?thesis by simp
next
  case two
  from assms(2) two(3) have "n = 0 \<or> n = 1"
    by auto
  moreover have "0 \<le> c div 64"
    using two(1) by simp
  ultimately show ?thesis
    using two(3) by (auto simp: decode_lead_only)
next
  case three
  from assms(2) three(4) have "n = 0 \<or> n = 1 \<or> n = 2"
    by auto
  moreover have a: "0 \<le> c div 4096"
    using three(1) by simp
  moreover have "0 \<le> c div 64 mod 64" "c div 64 mod 64 < 64"
    by simp_all
  ultimately show ?thesis
    using three(4)
    by (auto simp: decode_lead_only decode_skip utf8_seq_short1 numeral_2_eq_2)
next
  case four
  from assms(2) four(3) have "n = 0 \<or> n = 1 \<or> n = 2 \<or> n = 3"
    by auto
  moreover have a: "0 \<le> c div 262144"
    using four(1) by simp
  moreover have "0 \<le> c div 4096 mod 64" "c div 4096 mod 64 < 64"
    "0 \<le> c div 64 mod 64" "c div 64 mod 64 < 64"
    by simp_all
  ultimately show ?thesis
    using four(3)
    by (auto simp: decode_lead_only decode_skip decode_cont utf8_seq_short1 utf8_seq_short2
        numeral_2_eq_2 numeral_3_eq_3)
qed

lemma str_encode_utf8_Cons:
  assumes "str_encode_utf8 (c # cs) = Inr payload"
  obtains e rest where "utf8_char c = Some e" and "str_encode_utf8 cs = Inr rest"
    and "payload = e @ rest"
  using assms by (auto split: option.splits sum.splits)

lemma decode_truncated_prefix:
  "str_encode_utf8 s = Inr payload \<Longrightarrow>
   prefix (bytes_decode_utf8_ignore (take n payload)) s"
proof (induction s arbitrary: payload n)
  case Nil
  then show ?case by simp
next
  case (Cons c cs)
  from Cons.prems obtain e rest where e: "utf8_char c = Some e"
    and rest: "str_encode_utf8 cs = Inr rest" and payload: "payload = e @ rest"
    by (rule str_encode_utf8_Cons)
  show ?case
  proof (cases "n < length e")
    case True
    then have "take n payload = take n e"
      by (simp add: payload)
    then show ?thesis
      by (simp add: decode_partial_char [OF e True])
  next
    case False
    then have "take n payload = e @ take (n - length e) rest"
      by (simp add: payload)
    then show ?thesis
      using Cons.IH [OF rest] by (simp add: decode_utf8_char [OF e])
  qed
qed

lemma decode_encode:
  "str_encode_utf8 s = Inr payload \<Longrightarrow> bytes_decode_utf8_ignore payload = s"
proof (induction s arbitrary: payload)
  case Nil
  then show ?case by simp
next
  case (Cons c cs)
  from Cons.prems obtain e rest where e: "utf8_char c = Some e"
    and rest: "str_encode_utf8 cs = Inr rest" and payload: "payload = e @ rest"
    by (rule str_encode_utf8_Cons)
  show ?case
    using Cons.IH [OF rest] by (simp add: payload decode_utf8_char [OF e])
qed

lemma decode_prefix_of_payload:
  assumes "str_encode_utf8 s = Inr payload" and "prefix avail payload"
  shows "prefix (bytes_decode_utf8_ignore avail) s"
proof -
  from assms(2) have "avail = take (length avail) payload"
    by (auto simp: prefix_def)
  then show ?thesis
    using decode_truncated_prefix [OF assms(1), of "length avail"] by simp
qed

section \<open>Deserialisation of a truncated frame\<close>

lemma pack_step: "b = 0 \<or> b = 1 \<Longrightarrow> or (push_bit 1 v) b = 2 * v + (b :: int)"
  by (auto simp: push_bit_eq_mult or_one_eq)

lemma pack_fold_bounds:
  "is_bits bs \<Longrightarrow> 0 \<le> acc \<Longrightarrow>
   0 \<le> foldl (\<lambda>byte_val b. or (push_bit 1 byte_val) b) acc bs
   \<and> foldl (\<lambda>byte_val b. or (push_bit 1 byte_val) b) acc bs < (acc + 1) * 2 ^ length bs"
proof (induction bs arbitrary: acc)
  case Nil
  then show ?case by simp
next
  case (Cons b bs)
  from Cons.prems have b: "b = 0 \<or> b = 1" and bs: "is_bits bs"
    by (simp_all add: is_bits_def)
  have acc': "0 \<le> 2 * acc + b" "2 * acc + b + 1 \<le> 2 * (acc + 1)"
    using b Cons.prems(2) by auto
  have step: "foldl (\<lambda>byte_val b. or (push_bit 1 byte_val) b) acc (b # bs)
              = foldl (\<lambda>byte_val b. or (push_bit 1 byte_val) b) (2 * acc + b) bs"
    by (simp only: foldl_Cons pack_step [OF b])
  from Cons.IH [OF bs acc'(1)]
  have IH: "0 \<le> foldl (\<lambda>byte_val b. or (push_bit 1 byte_val) b) (2 * acc + b) bs"
    "foldl (\<lambda>byte_val b. or (push_bit 1 byte_val) b) (2 * acc + b) bs
       < (2 * acc + b + 1) * 2 ^ length bs"
    by blast+
  have "(2 * acc + b + 1) * 2 ^ length bs \<le> (2 * (acc + 1)) * 2 ^ length bs"
    using acc'(2) by (rule mult_right_mono) simp
  also have "\<dots> = (acc + 1) * 2 ^ length (b # bs)"
    by simp
  finally have "(2 * acc + b + 1) * 2 ^ length bs \<le> (acc + 1) * 2 ^ length (b # bs)" .
  with IH show ?case
    unfolding step by linarith
qed

lemma pack_byte_range:
  assumes "is_bits bs" and "length bs \<le> 8"
  shows "0 \<le> pack_byte bs \<and> pack_byte bs < 256"
proof -
  from pack_fold_bounds [OF assms(1), of 0]
  have "0 \<le> pack_byte bs" and "pack_byte bs < 2 ^ length bs"
    by (simp_all add: pack_byte_def)
  moreover have "(2 :: int) ^ length bs \<le> 2 ^ 8"
    using assms(2) by (rule power_increasing) simp
  ultimately show ?thesis by simp
qed

lemma pack_bytes_short: "length bits < 8 \<Longrightarrow> pack_bytes bits = []"
  by (simp add: pack_bytes.simps)

lemma pack_bytes_step:
  "8 \<le> length bits \<Longrightarrow> pack_bytes bits = pack_byte (take 8 bits) # pack_bytes (drop 8 bits)"
  by (subst pack_bytes.simps) simp

lemma is_bits_take: "is_bits bits \<Longrightarrow> is_bits (take n bits)"
  by (auto simp: is_bits_def list_all_iff dest: in_set_takeD)

lemma is_bits_drop: "is_bits bits \<Longrightarrow> is_bits (drop n bits)"
  by (auto simp: is_bits_def list_all_iff dest: in_set_dropD)

lemma pack_bytes_range:
  "is_bits bits \<Longrightarrow> list_all (\<lambda>b. 0 \<le> b \<and> b < 256) (pack_bytes bits)"
proof (induction "length bits" arbitrary: bits rule: less_induct)
  case less
  show ?case
  proof (cases "length bits < 8")
    case True
    then show ?thesis by (simp add: pack_bytes_short)
  next
    case False
    then have len: "8 \<le> length bits" by simp
    have "length (drop 8 bits) < length bits"
      using len by simp
    then have "list_all (\<lambda>b. 0 \<le> b \<and> b < 256) (pack_bytes (drop 8 bits))"
      using less.hyps is_bits_drop [OF less.prems] by blast
    moreover have "0 \<le> pack_byte (take 8 bits) \<and> pack_byte (take 8 bits) < 256"
      by (rule pack_byte_range) (simp_all add: is_bits_take [OF less.prems])
    ultimately show ?thesis
      by (simp add: pack_bytes_step [OF len])
  qed
qed

lemma length_pack_bytes: "length (pack_bytes bits) = length bits div 8"
proof (induction "length bits" arbitrary: bits rule: less_induct)
  case less
  show ?case
  proof (cases "length bits < 8")
    case True
    then show ?thesis by (simp add: pack_bytes_short)
  next
    case False
    then have len: "8 \<le> length bits" by simp
    have "length (drop 8 bits) < length bits"
      using len by simp
    then have "length (pack_bytes (drop 8 bits)) = length (drop 8 bits) div 8"
      using less.hyps by blast
    moreover have "length bits div 8 = Suc ((length bits - 8) div 8)"
      using len by (simp add: le_div_geq)
    ultimately show ?thesis
      by (simp add: pack_bytes_step [OF len])
  qed
qed

lemma ball_upt: "(\<forall>k\<in>set [0..<n]. P k) \<longleftrightarrow> (\<forall>k<n. P k)"
  by auto

lemma first_marker_find:
  "first_marker_at bs j \<Longrightarrow> find_marker bs = Some (j + 4)"
proof (induction bs arbitrary: j)
  case Nil
  then show ?case by (simp add: first_marker_at_def start_marker_def)
next
  case (Cons b bs)
  show ?case
  proof (cases j)
    case 0
    with Cons.prems show ?thesis by (simp add: first_marker_at_def)
  next
    case (Suc i)
    from Cons.prems have here: "take 4 (drop i bs) = start_marker"
      by (simp add: first_marker_at_def Suc)
    from Cons.prems have "\<forall>k\<in>set [0..<Suc i]. take 4 (drop k (b # bs)) \<noteq> start_marker"
      unfolding first_marker_at_def Suc list_ex_iff by blast
    then have none: "\<forall>k<Suc i. take 4 (drop k (b # bs)) \<noteq> start_marker"
      by (simp only: ball_upt)
    from none have head: "take 4 (b # bs) \<noteq> start_marker"
      by (metis drop0 zero_less_Suc)
    from none have "\<forall>k<i. take 4 (drop k bs) \<noteq> start_marker"
      by (metis Suc_less_eq drop_Suc_Cons)
    then have "\<not> list_ex (\<lambda>k. take 4 (drop k bs) = start_marker) [0..<i]"
      by (simp add: list_ex_iff)
    with here have "first_marker_at bs i"
      by (simp add: first_marker_at_def)
    then have "find_marker bs = Some (i + 4)"
      by (rule Cons.IH)
    with head show ?thesis
      by (simp add: Suc)
  qed
qed


lemma py_slice_to_end:
  "lo \<le> length xs \<Longrightarrow> py_slice xs (int lo) (int lo + (int (length xs) - int lo)) = drop lo xs"
  by (simp add: py_slice_def slice_bound_def Let_def)

lemma py_bytes_of_drop:
  "list_all (\<lambda>b. 0 \<le> b \<and> b < 256) xs \<Longrightarrow> py_bytes_of (drop n xs) = Inr (drop n xs)"
  by (auto simp: py_bytes_of_def list_all_iff dest: in_set_dropD)

lemma bits_to_text_clamped:
  assumes bits: "is_bits bits"
    and marker: "first_marker_at (pack_bytes bits) j"
    and field: "j + 6 \<le> length (pack_bytes bits)"
    and short: "int (length (pack_bytes bits)) - int (j + 6)
                  < pack_bytes bits ! (j + 4) + 256 * pack_bytes bits ! (j + 5)"
  shows "bits_to_text bits = Inr (bytes_decode_utf8_ignore (drop (j + 6) (pack_bytes bits)))"
proof -
  define bytes_data where "bytes_data = pack_bytes bits"
  have found: "find_marker bytes_data = Some (j + 4)"
    using marker unfolding bytes_data_def by (rule first_marker_find)
  have "6 \<le> length bits div 8"
    using field by (simp add: length_pack_bytes)
  then have long: "\<not> length bits < 48"
    by simp
  show ?thesis
  proof (cases "j + 6 = length bytes_data")
    case True
    then show ?thesis
      using long found by (simp add: bits_to_text_def bytes_data_def [symmetric])
  next
    case False
    have e5: "j + 4 + 1 = j + 5" and e6: "j + 4 + 2 = j + 6"
      by simp_all
    from False field have more: "\<not> length bytes_data \<le> j + 6"
      by (simp add: bytes_data_def)
    have len: "push_bit 8 (bytes_data ! (j + 5)) = 256 * bytes_data ! (j + 5)"
      by (simp add: push_bit_eq_mult)
    have clamp: "int (j + 6) + (bytes_data ! (j + 4) + 256 * bytes_data ! (j + 5))
                  > int (length bytes_data)"
      using short unfolding bytes_data_def by linarith
    have "j + 6 \<le> length bytes_data"
      using field by (simp add: bytes_data_def)
    then have slice: "py_slice bytes_data (int (j + 6))
                   (int (j + 6) + (int (length bytes_data) - int (j + 6)))
                 = drop (j + 6) bytes_data"
      by (rule py_slice_to_end)
    have ok: "py_bytes_of (drop (j + 6) bytes_data) = Inr (drop (j + 6) bytes_data)"
      unfolding bytes_data_def by (rule py_bytes_of_drop) (rule pack_bytes_range [OF bits])
    show ?thesis
      unfolding bits_to_text_def bytes_data_def [symmetric] Let_def
      using long found more clamp
      by (simp only: if_False option.case e5 e6 len if_True slice ok sum.case)
  qed
qed


text \<open>
  Claim C7: take a bit sequence whose packed bytes have their first marker at byte \<open>j\<close>,
  followed by the two bytes of a length field, where fewer payload bytes follow than the
  length field says. Then \<^verbatim>\<open>bits_to_text\<close> raises nothing: it returns the UTF-8
  decoding (invalid bytes ignored) of exactly the bytes that are there. Whenever those
  bytes are the beginning of the UTF-8 encoding of a text \<open>s\<close>, the result is a prefix
  of \<open>s\<close>.
\<close>

theorem truncated_payload_clamped:
  assumes "is_bits bits"
    and "first_marker_at (pack_bytes bits) j"
    and "j + 6 \<le> length (pack_bytes bits)"
    and "int (length (pack_bytes bits)) - int (j + 6)
           < pack_bytes bits ! (j + 4) + 256 * pack_bytes bits ! (j + 5)"
  shows "bits_to_text bits = Inr (bytes_decode_utf8_ignore (drop (j + 6) (pack_bytes bits)))
         \<and> (\<forall>s payload.
               str_encode_utf8 s = Inr payload \<and> prefix (drop (j + 6) (pack_bytes bits)) payload
               \<longrightarrow> prefix (bytes_decode_utf8_ignore (drop (j + 6) (pack_bytes bits))) s)"
  using bits_to_text_clamped [OF assms] decode_prefix_of_payload by blast

theorem truncated_payload_clamped_witness:
  "is_bits (concat (map byte_bits [0xAA, 0x55, 0xAA, 0x55, 5, 0, 0xD0, 0x9F, 0xE2]))
   \<and> first_marker_at
        (pack_bytes (concat (map byte_bits [0xAA, 0x55, 0xAA, 0x55, 5, 0, 0xD0, 0x9F, 0xE2]))) 0
   \<and> pack_bytes (concat (map byte_bits [0xAA, 0x55, 0xAA, 0x55, 5, 0, 0xD0, 0x9F, 0xE2]))
       = [0xAA, 0x55, 0xAA, 0x55, 5, 0, 0xD0, 0x9F, 0xE2]
   \<and> str_encode_utf8 [0x41F, 0x20AC] = Inr [0xD0, 0x9F, 0xE2, 0x82, 0xAC]
   \<and> bits_to_text (concat (map byte_bits [0xAA, 0x55, 0xAA, 0x55, 5, 0, 0xD0, 0x9F, 0xE2]))
       = Inr [0x41F]
   \<and> prefix [0x41F] [0x41F, 0x20AC :: int]"
proof -
  define bits where "bits = concat (map byte_bits [0xAA, 0x55, 0xAA, 0x55, 5, 0, 0xD0, 0x9F, 0xE2])"
  have packed: "pack_bytes bits = [0xAA, 0x55, 0xAA, 0x55, 5, 0, 0xD0, 0x9F, 0xE2]"
    unfolding bits_def by code_simp
  have is_bits: "is_bits bits"
    unfolding bits_def by (rule is_bits_concat_byte_bits)
  have marker: "first_marker_at (pack_bytes bits) 0"
    by (simp add: packed first_marker_at_def start_marker_def)
  have field: "0 + 6 \<le> length (pack_bytes bits)"
    by (simp add: packed)
  have short: "int (length (pack_bytes bits)) - int (0 + 6)
                 < pack_bytes bits ! (0 + 4) + 256 * pack_bytes bits ! (0 + 5)"
    by (simp add: packed)
  have enc: "str_encode_utf8 [0x41F, 0x20AC] = Inr [0xD0, 0x9F, 0xE2, 0x82, 0xAC]"
    by (simp add: utf8_char_def)
  have dec: "bytes_decode_utf8_ignore [0xD0, 0x9F, 0xE2] = [0x41F]"
    by code_simp
  from truncated_payload_clamped [OF is_bits marker field short]
  have res: "bits_to_text bits = Inr [0x41F]"
    and pre: "prefix [0x41F] [0x41F, 0x20AC :: int]"
    using enc by (simp_all add: packed dec)
  show ?thesis
    unfolding bits_def [symmetric]
    using is_bits marker packed enc res pre by blast
qed

section \<open>The round trip through a waveform\<close>

lemma find_marker_ge: "find_marker bs = Some p \<Longrightarrow> 4 \<le> p"
  by (induction bs arbitrary: p) (auto split: if_splits)

lemma bits_to_text_short_frame:
  assumes "length bits < 56"
  shows "bits_to_text bits = Inr []"
proof (cases "length bits < 48")
  case True
  then show ?thesis by (simp add: bits_to_text_def)
next
  case False
  have len: "length (pack_bytes bits) \<le> 6"
    using assms by (simp add: length_pack_bytes)
  show ?thesis
  proof (cases "find_marker (pack_bytes bits)")
    case None
    then show ?thesis by (simp add: bits_to_text_def)
  next
    case (Some p)
    then have "4 \<le> p" by (rule find_marker_ge)
    with len have "length (pack_bytes bits) \<le> p + 2"
      by simp
    then show ?thesis
      using Some by (simp add: bits_to_text_def)
  qed
qed

lemma length_concat_bit_signal:
  "length (concat (map (bit_signal K m) bits)) = length bits * bit_samples m"
  by (induction bits) (simp_all add: bit_signal_def Let_def)

lemma demodulate_at_most:
  fixes K :: "('a, 'w, 'p::ord) kernel"
  assumes "demodulate K m rate audio_data = Inr bits"
  shows "length bits \<le> (length audio_data - 1) div samples_per_bit rate (baud_rate m)"
proof -
  have "length audio_data
          - find_start (loud K) (samples_per_bit rate (baud_rate m)) audio_data - 1
        \<le> length audio_data - 1"
    by simp
  then show ?thesis
    unfolding demodulate_count [OF assms] by (rule div_le_mono)
qed

text \<open>
  Claim C1 at 8 Hz and 2 baud (4 samples per bit, any two tone frequencies, for instance
  1 Hz and 2 Hz) and the one-letter text \<open>A\<close>, for every numeric kernel: the silence is
  \<open>int(0.1 * 8) = 0\<close> samples long, so the encoder writes exactly the 224 samples of the
  56 frame bits. The block walk leaves out the last full block (the exclusive bound of
  its \<^verbatim>\<open>range\<close>, as in \<open>last_full_block_dropped\<close>), so the decoder sees at most 55 bits,
  which hold the marker and the length but not the payload byte, and it returns the
  empty string, not \<open>A\<close>.
\<close>

theorem round_trip_loses_last_bit:
  fixes K :: "('a, 'w, 'p::ord) kernel"
  shows "\<exists>w. encode_to_audio K \<lparr>sample_rate = 8, baud_rate = 2, freq_0 = f0, freq_1 = f1\<rparr> [65]
               = Inr (Some w)
             \<and> length w = 224
             \<and> decode_from_audio K \<lparr>sample_rate = 8, baud_rate = 2, freq_0 = f0, freq_1 = f1\<rparr>
                  (8, w) = []"
proof -
  define m where "m = \<lparr>sample_rate = 8, baud_rate = 2, freq_0 = f0, freq_1 = f1\<rparr>"
  define B where "B = concat (map byte_bits (spec_frame [65]))"
  define w where "w = map (to_pcm K) (concat (map (bit_signal K m) B))"
  have rates: "sample_rate m = 8" "baud_rate m = 2"
    by (simp_all add: m_def)
  have "str_encode_utf8 [65] = Inr [65]"
    by (simp add: utf8_char_def)
  then have bits: "text_to_bits [65] = Inr B"
    unfolding B_def by (rule text_to_bits_ok) simp
  have "length (spec_frame [65]) = 7"
    by (simp add: spec_frame_def)
  then have lenB: "length B = 56"
    unfolding B_def length_concat_byte_bits by simp
  then have nonempty: "B \<noteq> []"
    by auto
  have out: "stdout_accepts (stdout K) [65]"
    by (simp add: stdout_accepts_def utf8_char_def)
  have sil: "silence_duration m = 0"
    by (simp add: silence_duration_def rates py_int_def)
  have per_bit: "bit_samples m = 4"
    by (simp add: bit_samples_def bit_duration_def rates py_int_def)
  have spb: "samples_per_bit 8 (baud_rate m) = 4"
    by (simp add: samples_per_bit_div rates)
  have enc: "encode_to_audio K m [65] = Inr (Some w)"
    by (simp add: encode_to_audio_def out bits nonempty rates sil w_def)
  have lw: "length w = 224"
    by (simp add: w_def length_concat_bit_signal lenB per_bit)
  have dec: "decode_from_audio K m (8, w) = []"
  proof (cases "demodulate K m 8 (map (from_pcm K) w)")
    case (Inl err)
    then show ?thesis
      by (simp add: decode_from_audio_def decode_body_def)
  next
    case (Inr bits')
    from demodulate_at_most [OF Inr] have "length bits' \<le> 223 div 4"
      by (simp add: lw spb)
    then have "length bits' < 56"
      by simp
    then have "bits_to_text bits' = Inr []"
      by (rule bits_to_text_short_frame)
    with Inr show ?thesis
      by (simp add: decode_from_audio_def decode_body_def)
  qed
  from enc lw dec show ?thesis
    unfolding m_def by blast
qed

end
